theory Spec2Isabelle
  imports Main "HOL-Library.Word"
begin

unbundle bit_operations_syntax

section \<open>\<open>processImage\<close> and its row compactor (src/index.jsx)\<close>

text \<open>
  The development embeds \<open>processImage\<close> from the point where it holds the decoded
  pixels: lines 120 to 176 of src/index.jsx. Before that point the function decodes the
  image on a canvas and reads \<open>imageData.data\<close>, \<open>width\<close> and \<open>height\<close> from it
  (lines 107 to 119); these three values are the arguments of the model.

  The pixel part, lines 122 to 160 with the conversion of line 164, is the function
  \<open>compactRows\<close> (the row compactor of the specification). \<open>processImage\<close> is
  \<open>compactRows\<close> followed by the creation and the filling of the new image data (lines
  163 and 164), with the exceptions these calls throw; lines 173 to 176 log an exception
  and throw it again, so the function fails with it. Drawing the image data and encoding
  the canvas as a PNG blob (lines 167 to 171) belong to the browser: a successful run
  is represented by the image data that is drawn.

  \<open>maxDifferentPixels\<close> and \<open>quantizationFactor\<close> are natural numbers here (the
  slider gives an integer from 0 to 100, the factor is the default 16 or a positive
  integer); width and height are the natural numbers the canvas gives.
\<close>

subsection \<open>Data\<close>

text \<open>An element of a \<open>Uint8ClampedArray\<close> is a byte.\<close>

type_synonym u8 = "8 word"

text \<open>The result of a bitwise operator of JavaScript is a 32-bit integer.\<close>

type_synonym int32 = "32 word"

text \<open>\<open>const channels = 4; // RGBA\<close>\<close>

definition channels :: nat where
  "channels = 4"

text \<open>
  \<open>data[i]\<close>: reading a typed array at an index beyond its end gives \<open>undefined\<close>
  (here \<open>None\<close>); nothing is raised.
\<close>

definition dataAt :: "u8 list \<Rightarrow> nat \<Rightarrow> u8 option" where
  "dataAt data i = (if i < length data then Some (data ! i) else None)"

text \<open>
  \<open>Math.floor(data[pixelStart + c] / quantizationFactor)\<close>, as the right operand of
  \<open>|\<close>, which converts it to a 32-bit integer. \<open>undefined / q\<close> is \<open>NaN\<close>, a byte
  divided by 0 is \<open>Infinity\<close> or \<open>NaN\<close>, and the conversion sends all of them to 0.
  A quotient of a byte by a positive integer is at most 255 and converts to itself.
\<close>

definition quantize :: "u8 option \<Rightarrow> nat \<Rightarrow> int32" where
  "quantize v quantizationFactor =
     (case v of
        None \<Rightarrow> 0
      | Some b \<Rightarrow> if quantizationFactor = 0 then 0
                  else of_nat (unat b div quantizationFactor))"

text \<open>
  Lines 133 to 137: \<open>pixelValue\<close> starts at 0 and, for \<open>c\<close> from 0 below
  \<open>channels - 1\<close>, becomes \<open>(pixelValue << 4) | value\<close>.
\<close>

definition packStep :: "u8 list \<Rightarrow> nat \<Rightarrow> nat \<Rightarrow> nat \<Rightarrow> int32 \<Rightarrow> int32" where
  "packStep data quantizationFactor pixelStart c pixelValue =
     push_bit 4 pixelValue OR quantize (dataAt data (pixelStart + c)) quantizationFactor"

definition pixelValue :: "u8 list \<Rightarrow> nat \<Rightarrow> nat \<Rightarrow> int32" where
  "pixelValue data quantizationFactor pixelStart =
     fold (packStep data quantizationFactor pixelStart) [0..<channels - 1] 0"

text \<open>
  \<open>uniquePixels\<close> is a JavaScript \<open>Set\<close>: its elements are distinct and kept in
  insertion order, \<open>add\<close> leaves the set as it is when the element is there already,
  and \<open>size\<close> is the number of elements. It is a list without duplicates here.
\<close>

definition setAdd :: "int32 list \<Rightarrow> int32 \<Rightarrow> int32 list" where
  "setAdd uniquePixels k = (if k \<in> set uniquePixels then uniquePixels else uniquePixels @ [k])"

subsection \<open>The loops\<close>

text \<open>
  Lines 129 to 143, the scan of one row from column \<open>x\<close> on: the key of the pixel is
  added, and the loop is left as soon as the set has more than \<open>maxDifferentPixels\<close>
  elements. The value is the set after the loop.
\<close>

function scanRow :: "u8 list \<Rightarrow> nat \<Rightarrow> nat \<Rightarrow> nat \<Rightarrow> nat \<Rightarrow> nat \<Rightarrow> int32 list \<Rightarrow> int32 list" where
  "scanRow data quantizationFactor maxDifferentPixels width rowStart x uniquePixels =
     (if x < width then
        (if maxDifferentPixels <
              length (setAdd uniquePixels (pixelValue data quantizationFactor (rowStart + x * channels)))
         then setAdd uniquePixels (pixelValue data quantizationFactor (rowStart + x * channels))
         else scanRow data quantizationFactor maxDifferentPixels width rowStart (Suc x)
                (setAdd uniquePixels (pixelValue data quantizationFactor (rowStart + x * channels))))
      else uniquePixels)"
  by pat_completeness auto
termination
  by (relation "measure (\<lambda>(data, q, m, width, rowStart, x, u). width - x)") auto

text \<open>
  Lines 126 to 151, the body of the loop over the rows: row \<open>y\<close> is scanned from an
  empty set, and when the set has more than \<open>maxDifferentPixels\<close> elements, the
  elements \<open>data[rowStart]\<close> to \<open>data[rowEnd - 1]\<close> are pushed on \<open>nonBlankRows\<close>
  (a plain array: an \<open>undefined\<close> read is pushed as it is).
\<close>

definition rowBody :: "u8 list \<Rightarrow> nat \<Rightarrow> nat \<Rightarrow> nat \<Rightarrow> nat \<Rightarrow> u8 option list \<Rightarrow> u8 option list" where
  "rowBody data width maxDifferentPixels quantizationFactor y nonBlankRows =
     (let rowStart = y * width * channels;
          uniquePixels = scanRow data quantizationFactor maxDifferentPixels width rowStart 0 []
      in if maxDifferentPixels < length uniquePixels
         then (let rowEnd = rowStart + width * channels
               in nonBlankRows @ map (dataAt data) [rowStart..<rowEnd])
         else nonBlankRows)"

text \<open>Line 125: the loop over the rows, from row \<open>y\<close> on.\<close>

function rowsLoop :: "u8 list \<Rightarrow> nat \<Rightarrow> nat \<Rightarrow> nat \<Rightarrow> nat \<Rightarrow> nat \<Rightarrow> u8 option list \<Rightarrow> u8 option list" where
  "rowsLoop data width height maxDifferentPixels quantizationFactor y nonBlankRows =
     (if y < height
      then rowsLoop data width height maxDifferentPixels quantizationFactor (Suc y)
             (rowBody data width maxDifferentPixels quantizationFactor y nonBlankRows)
      else nonBlankRows)"
  by pat_completeness auto
termination
  by (relation "measure (\<lambda>(data, width, height, m, q, y, acc). height - y)") auto

subsection \<open>The result\<close>

text \<open>
  \<open>new Uint8ClampedArray(nonBlankRows)\<close> (line 164) converts each element to a byte:
  a byte stays, \<open>undefined\<close> becomes 0.
\<close>

definition toUint8Clamped :: "u8 option \<Rightarrow> u8" where
  "toUint8Clamped v = (case v of None \<Rightarrow> 0 | Some b \<Rightarrow> b)"

text \<open>
  \<open>nonBlankRows.length / (width * channels)\<close> (line 158) is a division of numbers:
  a division by 0 gives \<open>NaN\<close> or \<open>Infinity\<close> (here \<open>None\<close>) and nothing is
  raised. Only whole rows are pushed, so the length is a multiple of the divisor (lemma
  \<open>rowsLoop_length_dvd\<close>) and the quotient by a positive divisor is exact.
\<close>

definition jsDivide :: "nat \<Rightarrow> nat \<Rightarrow> nat option" where
  "jsDivide n d = (if d = 0 then None else Some (n div d))"

text \<open>
  What lines 122 to 160 compute for the new canvas: \<open>newCanvas.width\<close>,
  \<open>newCanvas.height\<close>, and the bytes of \<open>nonBlankRows\<close> as line 164 converts them
  (the conversion reads \<open>nonBlankRows\<close> only and cannot fail, so it is taken here).
\<close>

record newImage =
  newData :: "u8 list"
  newWidth :: nat
  newHeight :: "nat option"

definition compactRows :: "u8 list \<Rightarrow> nat \<Rightarrow> nat \<Rightarrow> nat \<Rightarrow> nat \<Rightarrow> newImage" where
  "compactRows data width height maxDifferentPixels quantizationFactor =
     (let nonBlankRows = rowsLoop data width height maxDifferentPixels quantizationFactor 0 []
      in \<lparr> newData = map toUint8Clamped nonBlankRows,
           newWidth = width,
           newHeight = jsDivide (length nonBlankRows) (width * channels) \<rparr>)"

subsection \<open>The new image data and the outcome of \<open>processImage\<close>\<close>

text \<open>
  The exceptions that lines 163 and 164 can throw. \<open>IndexSizeError\<close> is the name of a
  \<open>DOMException\<close>.
\<close>

datatype exception = IndexSizeError | TypeError | RangeError

text \<open>An \<open>ImageData\<close> object: its width, its height and its bytes.\<close>

record imageData =
  imageWidth :: nat
  imageHeight :: nat
  imagePixels :: "u8 list"

text \<open>
  \<open>newCtx.createImageData(width, newHeight)\<close> (line 163). The function is the
  browser's; its behaviour is the one of the HTML standard. The arguments are converted
  to integers first, and a \<open>NaN\<close> is a \<open>TypeError\<close>; then a width or a height of 0
  is an \<open>IndexSizeError\<close>; otherwise the result has \<open>sw * sh * 4\<close> bytes, all 0.
\<close>

definition createImageData :: "nat \<Rightarrow> nat option \<Rightarrow> exception + imageData" where
  "createImageData sw sh =
     (case sh of
        None \<Rightarrow> Inl TypeError
      | Some h \<Rightarrow>
          if sw = 0 \<or> h = 0 then Inl IndexSizeError
          else Inr \<lparr> imageWidth = sw, imageHeight = h,
                     imagePixels = replicate (sw * h * 4) 0 \<rparr>)"

text \<open>
  \<open>newImageData.data.set(source)\<close> (line 164): a source longer than the target is a
  \<open>RangeError\<close>; otherwise the source overwrites the first bytes of the target.
\<close>

definition typedArraySet :: "u8 list \<Rightarrow> u8 list \<Rightarrow> exception + u8 list" where
  "typedArraySet target source =
     (if length target < length source then Inl RangeError
      else Inr (source @ drop (length source) target))"

text \<open>
  \<open>processImage\<close> from line 120 on. An exception of line 163 or 164 is caught at line
  173, logged and thrown again (line 175): the function fails with it (\<open>Inl\<close>).
  Otherwise the image data is drawn on the new canvas and the function gives the PNG blob
  of that canvas; the value here is the image data drawn.
\<close>

definition processImage :: "u8 list \<Rightarrow> nat \<Rightarrow> nat \<Rightarrow> nat \<Rightarrow> nat \<Rightarrow> exception + imageData" where
  "processImage data width height maxDifferentPixels quantizationFactor =
     (let newCanvas = compactRows data width height maxDifferentPixels quantizationFactor
      in case createImageData (newWidth newCanvas) (newHeight newCanvas) of
           Inl error \<Rightarrow> Inl error
         | Inr newImageData \<Rightarrow>
             (case typedArraySet (imagePixels newImageData) (newData newCanvas) of
                Inl error \<Rightarrow> Inl error
              | Inr pixels \<Rightarrow> Inr (newImageData \<lparr> imagePixels := pixels \<rparr>)))"

subsection \<open>Notions the statements use\<close>

text \<open>
  The keys of the pixels of row \<open>y\<close>, left to right, with the index arithmetic of lines
  127 and 130, and the number of distinct keys among them.
\<close>

definition rowKeys :: "u8 list \<Rightarrow> nat \<Rightarrow> nat \<Rightarrow> nat \<Rightarrow> int32 list" where
  "rowKeys data quantizationFactor width y =
     map (\<lambda>x. pixelValue data quantizationFactor (y * width * channels + x * channels)) [0..<width]"

definition distinctKeys :: "u8 list \<Rightarrow> nat \<Rightarrow> nat \<Rightarrow> nat \<Rightarrow> nat" where
  "distinctKeys data quantizationFactor width y = length (remdups (rowKeys data quantizationFactor width y))"

text \<open>
  The test of line 146 on row \<open>y\<close>: the row is content (not blank) when the set left
  by the scan has more than \<open>maxDifferentPixels\<close> elements.
\<close>

definition rowIsContent :: "u8 list \<Rightarrow> nat \<Rightarrow> nat \<Rightarrow> nat \<Rightarrow> nat \<Rightarrow> bool" where
  "rowIsContent data width maxDifferentPixels quantizationFactor y =
     (maxDifferentPixels <
        length (scanRow data quantizationFactor maxDifferentPixels width (y * width * channels) 0 []))"

text \<open>What line 149 pushes for row \<open>y\<close>: the reads \<open>data[rowStart]\<close> to \<open>data[rowEnd - 1]\<close>.\<close>

definition rowSlots :: "u8 list \<Rightarrow> nat \<Rightarrow> nat \<Rightarrow> u8 option list" where
  "rowSlots data width y =
     map (dataAt data) [y * width * channels..<y * width * channels + width * channels]"

text \<open>Row \<open>y\<close> of the input: its \<open>width * channels\<close> bytes, all four channels of each pixel.\<close>

definition inputRow :: "u8 list \<Rightarrow> nat \<Rightarrow> nat \<Rightarrow> u8 list" where
  "inputRow data width y = take (width * channels) (drop (y * width * channels) data)"

text \<open>
  The content rows: the indices of the rows with more than \<open>maxDifferentPixels\<close>
  distinct keys, top to bottom.
\<close>

definition contentRows :: "u8 list \<Rightarrow> nat \<Rightarrow> nat \<Rightarrow> nat \<Rightarrow> nat \<Rightarrow> nat list" where
  "contentRows data width height maxDifferentPixels quantizationFactor =
     filter (\<lambda>y. maxDifferentPixels < distinctKeys data quantizationFactor width y) [0..<height]"

text \<open>
  The quantized channels of the pixel at \<open>pixelStart\<close>: the three values that lines 134
  to 137 pack into the key, in the order red, green, blue. The number of distinct triples
  of a row is the number of distinct quantized colours it has.
\<close>

definition quantizedTriple :: "u8 list \<Rightarrow> nat \<Rightarrow> nat \<Rightarrow> int32 list" where
  "quantizedTriple data quantizationFactor pixelStart =
     map (\<lambda>c. quantize (dataAt data (pixelStart + c)) quantizationFactor) [0..<channels - 1]"

definition distinctTriples :: "u8 list \<Rightarrow> nat \<Rightarrow> nat \<Rightarrow> nat \<Rightarrow> nat" where
  "distinctTriples data quantizationFactor width y =
     length (remdups (map (\<lambda>x. quantizedTriple data quantizationFactor (y * width * channels + x * channels))
                          [0..<width]))"

subsection \<open>The reference: a scan of the whole row\<close>

text \<open>
  The reference version, written from the words of the specification and not from the
  source: it "may scan the full row and compare counts afterward". It is the scan above
  without the exit of lines 140 to 142, and the rest of the function as it is.
\<close>

function scanRowFull :: "u8 list \<Rightarrow> nat \<Rightarrow> nat \<Rightarrow> nat \<Rightarrow> nat \<Rightarrow> int32 list \<Rightarrow> int32 list" where
  "scanRowFull data quantizationFactor width rowStart x uniquePixels =
     (if x < width
      then scanRowFull data quantizationFactor width rowStart (Suc x)
             (setAdd uniquePixels (pixelValue data quantizationFactor (rowStart + x * channels)))
      else uniquePixels)"
  by pat_completeness auto
termination
  by (relation "measure (\<lambda>(data, q, width, rowStart, x, u). width - x)") auto

definition rowBodyFull :: "u8 list \<Rightarrow> nat \<Rightarrow> nat \<Rightarrow> nat \<Rightarrow> nat \<Rightarrow> u8 option list \<Rightarrow> u8 option list" where
  "rowBodyFull data width maxDifferentPixels quantizationFactor y nonBlankRows =
     (let rowStart = y * width * channels;
          uniquePixels = scanRowFull data quantizationFactor width rowStart 0 []
      in if maxDifferentPixels < length uniquePixels
         then (let rowEnd = rowStart + width * channels
               in nonBlankRows @ map (dataAt data) [rowStart..<rowEnd])
         else nonBlankRows)"

function rowsLoopFull :: "u8 list \<Rightarrow> nat \<Rightarrow> nat \<Rightarrow> nat \<Rightarrow> nat \<Rightarrow> nat \<Rightarrow> u8 option list \<Rightarrow> u8 option list" where
  "rowsLoopFull data width height maxDifferentPixels quantizationFactor y nonBlankRows =
     (if y < height
      then rowsLoopFull data width height maxDifferentPixels quantizationFactor (Suc y)
             (rowBodyFull data width maxDifferentPixels quantizationFactor y nonBlankRows)
      else nonBlankRows)"
  by pat_completeness auto
termination
  by (relation "measure (\<lambda>(data, width, height, m, q, y, acc). height - y)") auto

definition compactRowsFull :: "u8 list \<Rightarrow> nat \<Rightarrow> nat \<Rightarrow> nat \<Rightarrow> nat \<Rightarrow> newImage" where
  "compactRowsFull data width height maxDifferentPixels quantizationFactor =
     (let nonBlankRows = rowsLoopFull data width height maxDifferentPixels quantizationFactor 0 []
      in \<lparr> newData = map toUint8Clamped nonBlankRows,
           newWidth = width,
           newHeight = jsDivide (length nonBlankRows) (width * channels) \<rparr>)"

definition rowIsContentFull :: "u8 list \<Rightarrow> nat \<Rightarrow> nat \<Rightarrow> nat \<Rightarrow> nat \<Rightarrow> bool" where
  "rowIsContentFull data width maxDifferentPixels quantizationFactor y =
     (maxDifferentPixels <
        length (scanRowFull data quantizationFactor width (y * width * channels) 0 []))"

subsection \<open>Test images\<close>

text \<open>
  A picture 4 pixels wide and 3 high: row 0 is red, row 1 is half black and half white,
  row 2 is red, green, blue, white. Every pixel is opaque.
\<close>

definition scenarioImage :: "u8 list" where
  "scenarioImage =
     [255, 0, 0, 255,  255, 0, 0, 255,  255, 0, 0, 255,      255, 0, 0, 255,
      0, 0, 0, 255,    0, 0, 0, 255,    255, 255, 255, 255,  255, 255, 255, 255,
      255, 0, 0, 255,  0, 255, 0, 255,  0, 0, 255, 255,      255, 255, 255, 255]"

text \<open>A row of two pixels, (0, 16, 0) and (1, 0, 0), both opaque.\<close>

definition collisionRow :: "u8 list" where
  "collisionRow = [0, 16, 0, 255,  1, 0, 0, 255]"

text \<open>The picture of the scenario with other alpha bytes; the colour bytes are the same.\<close>

definition translucentImage :: "u8 list" where
  "translucentImage =
     [255, 0, 0, 0,    255, 0, 0, 10,   255, 0, 0, 20,       255, 0, 0, 30,
      0, 0, 0, 128,    0, 0, 0, 64,     255, 255, 255, 32,   255, 255, 255, 16,
      255, 0, 0, 1,    0, 255, 0, 2,    0, 0, 255, 3,        255, 255, 255, 4]"

section \<open>Properties of the loops\<close>

declare scanRow.simps [simp del] rowsLoop.simps [simp del]

lemma set_setAdd: "set (setAdd s k) = insert k (set s)"
  by (auto simp: setAdd_def)

lemma distinct_setAdd: "distinct s \<Longrightarrow> distinct (setAdd s k)"
  by (simp add: setAdd_def)

lemma scanRow_exceeds:
  "distinct s \<Longrightarrow> length s \<le> m \<Longrightarrow>
   (m < length (scanRow d q m w rs x s)) =
   (m < card (set s \<union> set (map (\<lambda>x. pixelValue d q (rs + x * channels)) [x..<w])))"
proof (induction d q m w rs x s rule: scanRow.induct)
  case (1 d q m w rs x s)
  let ?k = "pixelValue d q (rs + x * channels)"
  let ?s' = "setAdd s ?k"
  let ?f = "\<lambda>x. pixelValue d q (rs + x * channels)"
  show ?case
  proof (cases "x < w")
    case False
    with "1.prems" show ?thesis
      by (subst scanRow.simps) (simp add: distinct_card)
  next
    case xw: True
    have upt: "[x..<w] = x # [Suc x..<w]"
      using xw by (simp add: upt_conv_Cons)
    have sets: "set s \<union> set (map ?f [x..<w]) = set ?s' \<union> set (map ?f [Suc x..<w])"
      by (simp add: upt set_setAdd)
    have d': "distinct ?s'"
      using "1.prems" by (simp add: distinct_setAdd)
    show ?thesis
    proof (cases "m < length ?s'")
      case True
      have "length ?s' = card (set ?s')"
        using d' by (simp add: distinct_card)
      also have "\<dots> \<le> card (set ?s' \<union> set (map ?f [Suc x..<w]))"
        by (rule card_mono) auto
      finally have "m < card (set s \<union> set (map ?f [x..<w]))"
        using True sets by simp
      moreover have "scanRow d q m w rs x s = ?s'"
        using xw True by (subst scanRow.simps) simp
      ultimately show ?thesis
        using True by simp
    next
      case False
      then have le: "length ?s' \<le> m" by simp
      have "scanRow d q m w rs x s = scanRow d q m w rs (Suc x) ?s'"
        using xw False by (subst scanRow.simps) simp
      moreover have "(m < length (scanRow d q m w rs (Suc x) ?s')) =
          (m < card (set ?s' \<union> set (map ?f [Suc x..<w])))"
        using "1.IH" [OF xw False d' le] .
      ultimately show ?thesis
        using sets by simp
    qed
  qed
qed

lemma rowIsContent_iff:
  "rowIsContent d w m q y = (m < distinctKeys d q w y)"
  using scanRow_exceeds [of "[]" m d q w "y * w * channels" 0]
  by (simp add: rowIsContent_def distinctKeys_def rowKeys_def length_remdups_card_conv)

lemma rowBody_eq:
  "rowBody d w m q y nb = nb @ (if rowIsContent d w m q y then rowSlots d w y else [])"
  by (simp add: rowBody_def rowIsContent_def rowSlots_def Let_def)

lemma rowsLoop_eq:
  "rowsLoop d w h m q y nb =
   nb @ concat (map (rowSlots d w) (filter (rowIsContent d w m q) [y..<h]))"
proof (induction d w h m q y nb rule: rowsLoop.induct)
  case (1 d w h m q y nb)
  show ?case
  proof (cases "y < h")
    case True
    then have "[y..<h] = y # [Suc y..<h]"
      by (simp add: upt_conv_Cons)
    with True "1.IH" show ?thesis
      by (subst rowsLoop.simps) (simp add: rowBody_eq)
  next
    case False
    then show ?thesis by (subst rowsLoop.simps) simp
  qed
qed

lemma length_rowSlots: "length (rowSlots d w y) = w * channels"
  by (simp add: rowSlots_def)

lemma length_concat_rowSlots:
  "length (concat (map (rowSlots d w) ys)) = length ys * (w * channels)"
  by (induction ys) (simp_all add: length_rowSlots)

lemma rowsLoop_length_dvd:
  "w * channels dvd length (rowsLoop d w h m q 0 [])"
  by (simp add: rowsLoop_eq length_concat_rowSlots)

lemma contentRows_filter:
  "filter (rowIsContent d w m q) [0..<h] = contentRows d w h m q"
proof -
  have "rowIsContent d w m q = (\<lambda>y. m < distinctKeys d q w y)"
    by (rule ext) (rule rowIsContent_iff)
  then show ?thesis
    by (simp add: contentRows_def)
qed

lemma compactRows_eq:
  "compactRows d w h m q =
   \<lparr> newData = concat (map (\<lambda>y. map toUint8Clamped (rowSlots d w y)) (contentRows d w h m q)),
     newWidth = w,
     newHeight = jsDivide (length (contentRows d w h m q) * (w * channels)) (w * channels) \<rparr>"
  by (simp add: compactRows_def rowsLoop_eq contentRows_filter map_concat
      length_concat_rowSlots comp_def)

lemma newHeight_pos:
  "0 < w \<Longrightarrow> jsDivide (n * (w * channels)) (w * channels) = Some n"
  by (simp add: jsDivide_def channels_def)

lemma row_in_range:
  assumes "y < h" and "length d = w * h * channels"
  shows "y * w * channels + w * channels \<le> length d"
proof -
  have "Suc y \<le> h" using assms(1) by simp
  then have "Suc y * (w * channels) \<le> h * (w * channels)"
    by (rule mult_le_mono1)
  then show ?thesis
    using assms(2) by (simp add: algebra_simps)
qed

lemma rowSlots_inputRow:
  assumes "y * w * channels + w * channels \<le> length d"
  shows "map toUint8Clamped (rowSlots d w y) = inputRow d w y"
proof (rule nth_equalityI)
  show "length (map toUint8Clamped (rowSlots d w y)) = length (inputRow d w y)"
    using assms by (simp add: rowSlots_def inputRow_def)
next
  fix i assume "i < length (map toUint8Clamped (rowSlots d w y))"
  then have i: "i < w * channels" by (simp add: rowSlots_def)
  then show "map toUint8Clamped (rowSlots d w y) ! i = inputRow d w y ! i"
    using assms by (simp add: rowSlots_def inputRow_def dataAt_def toUint8Clamped_def)
qed

subsection \<open>The result on a buffer of the right length\<close>

lemma newData_wellformed:
  assumes "length d = w * h * channels"
  shows "newData (compactRows d w h m q) = concat (map (inputRow d w) (contentRows d w h m q))"
proof -
  have "map (\<lambda>y. map toUint8Clamped (rowSlots d w y)) (contentRows d w h m q) =
        map (inputRow d w) (contentRows d w h m q)"
  proof (rule map_cong [OF refl])
    fix y assume "y \<in> set (contentRows d w h m q)"
    then have "y < h" by (simp add: contentRows_def)
    then show "map toUint8Clamped (rowSlots d w y) = inputRow d w y"
      using assms by (intro rowSlots_inputRow row_in_range)
  qed
  then have "concat (map (\<lambda>y. map toUint8Clamped (rowSlots d w y)) (contentRows d w h m q)) =
        concat (map (inputRow d w) (contentRows d w h m q))"
    by (rule arg_cong)
  moreover have "newData (compactRows d w h m q) =
        concat (map (\<lambda>y. map toUint8Clamped (rowSlots d w y)) (contentRows d w h m q))"
    by (simp add: compactRows_eq)
  ultimately show ?thesis
    by (rule trans [rotated])
qed

lemma newHeight_eq:
  "0 < w \<Longrightarrow> newHeight (compactRows d w h m q) = Some (length (contentRows d w h m q))"
  by (simp add: compactRows_eq newHeight_pos)

lemma newWidth_eq: "newWidth (compactRows d w h m q) = w"
  by (simp add: compactRows_eq)

lemma length_newData:
  "length (newData (compactRows d w h m q)) = length (contentRows d w h m q) * w * channels"
  by (simp add: compactRows_eq length_concat_rowSlots length_concat comp_def length_rowSlots
      sum_list_triv)

lemma concat_inputRows:
  "concat (map (inputRow d w) [0..<h]) = take (h * w * channels) d"
proof (induction h)
  case 0
  show ?case by simp
next
  case (Suc h)
  have "take (h * w * channels) d @ take (w * channels) (drop (h * w * channels) d) =
        take (h * w * channels + w * channels) d"
    by (simp add: take_add)
  with Suc show ?case
    by (simp add: inputRow_def algebra_simps)
qed

subsection \<open>The test image\<close>

lemma scenario_length: "length scenarioImage = 4 * 3 * channels"
  by code_simp

lemma scenario_keys_0: "distinctKeys scenarioImage 16 4 0 = 1"
  by code_simp

lemma scenario_keys_1: "distinctKeys scenarioImage 16 4 (Suc 0) = 2"
  by code_simp

lemma scenario_keys_2: "distinctKeys scenarioImage 16 4 (Suc (Suc 0)) = 4"
  by code_simp

lemma scenario_rows_1_2:
  "inputRow scenarioImage 4 1 @ inputRow scenarioImage 4 2 =
     [0, 0, 0, 255,    0, 0, 0, 255,    255, 255, 255, 255,  255, 255, 255, 255,
      255, 0, 0, 255,  0, 255, 0, 255,  0, 0, 255, 255,      255, 255, 255, 255]"
  by code_simp

lemma all_less_3: "(\<forall>y<3. P y) = (P 0 \<and> P (Suc 0) \<and> P (Suc (Suc 0)))"
  by (auto simp: numeral_3_eq_3 less_Suc_eq)

lemma scenario_contentRows_1: "contentRows scenarioImage 4 3 1 16 = [1, 2]"
  by code_simp

subsection \<open>The number of content rows as the threshold grows\<close>

lemma length_filter_mono:
  "(\<And>x. Q x \<Longrightarrow> P x) \<Longrightarrow> length (filter Q xs) \<le> length (filter P xs)"
  by (induction xs) auto

lemma length_contentRows_mono:
  "t1 \<le> t2 \<Longrightarrow> length (contentRows d w h t2 q) \<le> length (contentRows d w h t1 q)"
  unfolding contentRows_def by (rule length_filter_mono) simp

subsection \<open>The scan of the whole row\<close>

declare scanRowFull.simps [simp del] rowsLoopFull.simps [simp del]

lemma scanRowFull_set:
  "distinct s \<Longrightarrow>
   distinct (scanRowFull d q w rs x s) \<and>
   set (scanRowFull d q w rs x s) =
     set s \<union> set (map (\<lambda>x. pixelValue d q (rs + x * channels)) [x..<w])"
proof (induction d q w rs x s rule: scanRowFull.induct)
  case (1 d q w rs x s)
  show ?case
  proof (cases "x < w")
    case True
    then have upt: "[x..<w] = x # [Suc x..<w]"
      by (simp add: upt_conv_Cons)
    have "distinct (setAdd s (pixelValue d q (rs + x * channels)))"
      using "1.prems" by (rule distinct_setAdd)
    from "1.IH" [OF True this] True show ?thesis
      by (subst (1 2) scanRowFull.simps) (simp add: upt set_setAdd)
  next
    case False
    with "1.prems" show ?thesis
      by (subst (1 2) scanRowFull.simps) simp
  qed
qed

lemma length_scanRowFull:
  "length (scanRowFull d q w (y * w * channels) 0 []) = distinctKeys d q w y"
proof -
  have "distinct (scanRowFull d q w (y * w * channels) 0 []) \<and>
        set (scanRowFull d q w (y * w * channels) 0 []) = set (rowKeys d q w y)"
    using scanRowFull_set [of "[]" d q w "y * w * channels" 0]
    by (simp add: rowKeys_def)
  then show ?thesis
    by (metis distinct_card distinctKeys_def length_remdups_card_conv)
qed

lemma rowIsContentFull_iff:
  "rowIsContentFull d w m q y = (m < distinctKeys d q w y)"
  by (simp add: rowIsContentFull_def length_scanRowFull)

lemma rowBodyFull_eq: "rowBodyFull d w m q y nb = rowBody d w m q y nb"
  by (simp add: rowBodyFull_def Let_def length_scanRowFull rowBody_eq rowIsContent_iff
      rowSlots_def)

lemma rowsLoopFull_eq:
  "rowsLoopFull d w h m q y nb = rowsLoop d w h m q y nb"
proof (induction d w h m q y nb rule: rowsLoopFull.induct)
  case (1 d w h m q y nb)
  show ?case
  proof (cases "y < h")
    case True
    with "1.IH" show ?thesis
      by (subst rowsLoopFull.simps, subst rowsLoop.simps) (simp add: rowBodyFull_eq)
  next
    case False
    then show ?thesis
      by (subst rowsLoopFull.simps, subst rowsLoop.simps) simp
  qed
qed

subsection \<open>The key of a pixel\<close>

lemma upt_3: "[0..<3] = [0, Suc 0, Suc (Suc 0)]"
  by (simp add: upt_rec)

lemma pixelValue_unfold:
  "pixelValue d q p =
     push_bit 4 (push_bit 4 (quantize (dataAt d p) q) OR quantize (dataAt d (Suc p)) q)
       OR quantize (dataAt d (Suc (Suc p))) q"
  by (simp add: pixelValue_def channels_def packStep_def upt_3)

lemma quantizedTriple_unfold:
  "quantizedTriple d q p =
     [quantize (dataAt d p) q, quantize (dataAt d (Suc p)) q, quantize (dataAt d (Suc (Suc p))) q]"
  by (simp add: quantizedTriple_def channels_def upt_3)

lemma small_bits:
  fixes v :: int32
  assumes "v < 16" and "bit v n"
  shows "n < 4"
proof -
  have "v < 2 ^ 4" using assms(1) by simp
  then have "v AND mask 4 = v"
    by (rule less_mask_eq)
  then have "take_bit 4 v = v"
    by (simp add: take_bit_eq_mask)
  then have "bit (take_bit 4 v) n"
    using assms(2) by simp
  then show ?thesis
    by (simp add: bit_take_bit_iff)
qed

lemma key_red:
  fixes a b c :: int32
  assumes "a < 16" and "b < 16" and "c < 16"
  shows "drop_bit 8 (push_bit 4 (push_bit 4 a OR b) OR c) = a"
proof (rule bit_word_eqI)
  fix n assume "n < LENGTH(32)"
  have "\<not> bit b (4 + n)" and "\<not> bit c (8 + n)" and "bit a n \<Longrightarrow> n < 4"
    using small_bits [OF assms(1), of n] small_bits [OF assms(2), of "4 + n"]
      small_bits [OF assms(3), of "8 + n"]
    by auto
  then show "bit (drop_bit 8 (push_bit 4 (push_bit 4 a OR b) OR c)) n = bit a n"
    by (auto simp: bit_simps)
qed

lemma key_green:
  fixes a b c :: int32
  assumes "b < 16" and "c < 16"
  shows "take_bit 4 (drop_bit 4 (push_bit 4 (push_bit 4 a OR b) OR c)) = b"
proof (rule bit_word_eqI)
  fix n assume "n < LENGTH(32)"
  have "\<not> bit c (4 + n)" and "bit b n \<Longrightarrow> n < 4"
    using small_bits [OF assms(1), of n] small_bits [OF assms(2), of "4 + n"]
    by auto
  then show "bit (take_bit 4 (drop_bit 4 (push_bit 4 (push_bit 4 a OR b) OR c))) n = bit b n"
    by (auto simp: bit_simps)
qed

lemma key_blue:
  fixes a b c :: int32
  assumes "c < 16"
  shows "take_bit 4 (push_bit 4 (push_bit 4 a OR b) OR c) = c"
proof (rule bit_word_eqI)
  fix n assume "n < LENGTH(32)"
  show "bit (take_bit 4 (push_bit 4 (push_bit 4 a OR b) OR c)) n = bit c n"
    using small_bits [OF assms(1), of n]
    by (auto simp: bit_simps)
qed

lemma quantize_small:
  assumes "16 \<le> q"
  shows "quantize v q < 16"
proof (cases v)
  case None
  then show ?thesis by (simp add: quantize_def)
next
  case (Some b)
  have "unat b < 2 ^ LENGTH(8)"
    by (rule unsigned_less)
  then have "unat b < 16 * q"
    using assms by simp
  then have k: "unat b div q < 16"
    using assms by (simp add: div_less_iff_less_mult)
  then have "(of_nat (unat b div q) :: int32) < 16"
    by (simp add: word_less_nat_alt unat_of_nat)
  then show ?thesis
    using Some assms by (simp add: quantize_def)
qed

lemma pack_inj:
  fixes a b c a' b' c' :: int32
  assumes "a < 16" "b < 16" "c < 16" "a' < 16" "b' < 16" "c' < 16"
  shows "(push_bit 4 (push_bit 4 a OR b) OR c = push_bit 4 (push_bit 4 a' OR b') OR c') =
         (a = a' \<and> b = b' \<and> c = c')"
proof
  assume eq: "push_bit 4 (push_bit 4 a OR b) OR c = push_bit 4 (push_bit 4 a' OR b') OR c'"
  have "a = drop_bit 8 (push_bit 4 (push_bit 4 a OR b) OR c)"
    using assms(1-3) by (rule key_red [symmetric])
  also have "\<dots> = drop_bit 8 (push_bit 4 (push_bit 4 a' OR b') OR c')"
    by (simp only: eq)
  also have "\<dots> = a'"
    using assms(4-6) by (rule key_red)
  finally have "a = a'" .
  moreover have "b = b'"
  proof -
    have "b = take_bit 4 (drop_bit 4 (push_bit 4 (push_bit 4 a OR b) OR c))"
      using assms(2,3) by (rule key_green [symmetric])
    also have "\<dots> = take_bit 4 (drop_bit 4 (push_bit 4 (push_bit 4 a' OR b') OR c'))"
      by (simp only: eq)
    also have "\<dots> = b'"
      using assms(5,6) by (rule key_green)
    finally show ?thesis .
  qed
  moreover have "c = c'"
  proof -
    have "c = take_bit 4 (push_bit 4 (push_bit 4 a OR b) OR c)"
      using assms(3) by (rule key_blue [symmetric])
    also have "\<dots> = take_bit 4 (push_bit 4 (push_bit 4 a' OR b') OR c')"
      by (simp only: eq)
    also have "\<dots> = c'"
      using assms(6) by (rule key_blue)
    finally show ?thesis .
  qed
  ultimately show "a = a' \<and> b = b' \<and> c = c'"
    by simp
next
  assume "a = a' \<and> b = b' \<and> c = c'"
  then show "push_bit 4 (push_bit 4 a OR b) OR c = push_bit 4 (push_bit 4 a' OR b') OR c'"
    by simp
qed

lemma triple_small: "16 \<le> q \<Longrightarrow> \<forall>v\<in>set (quantizedTriple d q p). v < 16"
  by (simp add: quantizedTriple_unfold quantize_small)

lemma pixelValue_inj:
  assumes "\<forall>v\<in>set (quantizedTriple d q p). v < 16"
    and "\<forall>v\<in>set (quantizedTriple d' q' p'). v < 16"
  shows "(pixelValue d q p = pixelValue d' q' p') =
         (quantizedTriple d q p = quantizedTriple d' q' p')"
proof -
  have small: "quantize (dataAt d p) q < 16" "quantize (dataAt d (Suc p)) q < 16"
      "quantize (dataAt d (Suc (Suc p))) q < 16"
    using assms(1) by (simp_all add: quantizedTriple_unfold)
  have small': "quantize (dataAt d' p') q' < 16" "quantize (dataAt d' (Suc p')) q' < 16"
      "quantize (dataAt d' (Suc (Suc p'))) q' < 16"
    using assms(2) by (simp_all add: quantizedTriple_unfold)
  show ?thesis
    unfolding quantizedTriple_unfold pixelValue_unfold pack_inj [OF small small']
    by simp
qed

subsection \<open>Buffers with the same quantized channels\<close>

lemma pixelValue_cong:
  assumes "\<And>c. c < channels - 1 \<Longrightarrow> quantize (dataAt d (p + c)) q = quantize (dataAt d' (p + c)) q"
  shows "pixelValue d q p = pixelValue d' q p"
  using assms [of 0] assms [of 1] assms [of 2]
  by (simp add: pixelValue_unfold channels_def numeral_2_eq_2)

lemma rowKeys_cong:
  assumes "\<And>x c. x < w \<Longrightarrow> c < channels - 1 \<Longrightarrow>
             quantize (dataAt d (y * w * channels + x * channels + c)) q =
             quantize (dataAt d' (y * w * channels + x * channels + c)) q"
  shows "rowKeys d q w y = rowKeys d' q w y"
  unfolding rowKeys_def
proof (rule map_cong [OF refl])
  fix x assume "x \<in> set [0..<w]"
  then have "x < w" by simp
  then show "pixelValue d q (y * w * channels + x * channels) =
             pixelValue d' q (y * w * channels + x * channels)"
    using assms by (intro pixelValue_cong) simp
qed

subsection \<open>Buffers that differ in the alpha bytes only\<close>

lemma colour_index:
  assumes "c < channels - 1"
  shows "(y * w * channels + x * channels + c) mod channels \<noteq> channels - 1"
proof -
  have "(y * w * channels + x * channels + c) mod channels = c mod channels"
    by (simp add: mod_add_eq [symmetric] add.assoc [symmetric])
  then show ?thesis
    using assms by (simp add: channels_def)
qed

lemma dataAt_colour:
  assumes "length d1 = length d2"
    and "\<forall>i<length d1. i mod channels \<noteq> channels - 1 \<longrightarrow> d1 ! i = d2 ! i"
    and "i mod channels \<noteq> channels - 1"
  shows "dataAt d1 i = dataAt d2 i"
  using assms by (simp add: dataAt_def)

lemma distinctKeys_alpha:
  assumes "length d1 = length d2"
    and "\<forall>i<length d1. i mod channels \<noteq> channels - 1 \<longrightarrow> d1 ! i = d2 ! i"
  shows "distinctKeys d1 q w y = distinctKeys d2 q w y"
proof -
  have "rowKeys d1 q w y = rowKeys d2 q w y"
  proof (rule rowKeys_cong)
    fix x c assume "x < w" and "c < channels - 1"
    then have "dataAt d1 (y * w * channels + x * channels + c) =
               dataAt d2 (y * w * channels + x * channels + c)"
      by (intro dataAt_colour [OF assms] colour_index)
    then show "quantize (dataAt d1 (y * w * channels + x * channels + c)) q =
               quantize (dataAt d2 (y * w * channels + x * channels + c)) q"
      by simp
  qed
  then show ?thesis
    by (simp add: distinctKeys_def)
qed

lemma all_less_list_all: "(\<forall>i<n. P i) = list_all P [0..<n]"
  by (auto simp: list_all_iff)

lemma translucent_colours:
  "list_all (\<lambda>i. i mod channels \<noteq> channels - 1 \<longrightarrow> scenarioImage ! i = translucentImage ! i)
     [0..<length scenarioImage]"
  by code_simp

subsection \<open>The outcome of \<open>processImage\<close>\<close>

lemma processImage_blank:
  assumes "0 < w" and "contentRows d w h m q = []"
  shows "processImage d w h m q = Inl IndexSizeError"
  using assms
  by (simp add: processImage_def compactRows_eq jsDivide_def channels_def createImageData_def)

lemma processImage_content:
  assumes "0 < w" and "contentRows d w h m q \<noteq> []"
  shows "processImage d w h m q =
         Inr \<lparr> imageWidth = w, imageHeight = length (contentRows d w h m q),
               imagePixels = newData (compactRows d w h m q) \<rparr>"
proof -
  let ?k = "length (contentRows d w h m q)"
  have k: "0 < ?k" using assms(2) by simp
  have h: "newHeight (compactRows d w h m q) = Some ?k"
    using assms(1) by (rule newHeight_eq)
  have len: "length (newData (compactRows d w h m q)) = w * ?k * 4"
    using length_newData [of d w h m q] by (simp add: channels_def mult.commute)
  show ?thesis
    using assms(1) k
    by (simp add: processImage_def Let_def newWidth_eq h createImageData_def
        typedArraySet_def len)
qed

section \<open>The claims\<close>

text \<open>
  Claim C1. Take a picture 4 pixels wide and 3 high, where row 0 has 1 distinct
  quantized colour (as a row of one red has), row 1 has 2 and row 2 has 4. With
  \<open>maxDifferentPixels = 1\<close> and the quantization factor 16, the result has width 4 and
  height 2, and its bytes are the bytes of row 1 followed by the bytes of row 2 of the
  input: row 0 is dropped.
\<close>

theorem scenario_rows_1_and_2_survive:
  assumes "length data = 4 * 3 * channels"
    and "distinctKeys data 16 4 0 = 1"
    and "distinctKeys data 16 4 1 = 2"
    and "distinctKeys data 16 4 2 = 4"
  shows "compactRows data 4 3 1 16 =
         \<lparr> newData = inputRow data 4 1 @ inputRow data 4 2, newWidth = 4, newHeight = Some 2 \<rparr>"
proof -
  have upt: "[0..<3] = [0, 1, 2::nat]"
    by (simp add: upt_rec)
  have rows: "contentRows data 4 3 1 16 = [1, 2]"
    using assms(2-4) by (simp add: contentRows_def upt)
  have "newData (compactRows data 4 3 1 16) = inputRow data 4 1 @ inputRow data 4 2"
    using newData_wellformed [OF assms(1), of 1 16] unfolding rows by simp
  moreover have "newHeight (compactRows data 4 3 1 16) = Some 2"
    using newHeight_eq [of 4 data 3 1 16] unfolding rows by simp
  moreover have "newWidth (compactRows data 4 3 1 16) = 4"
    by (rule newWidth_eq)
  ultimately show ?thesis
    by (cases "compactRows data 4 3 1 16") simp
qed

theorem scenario_rows_1_and_2_survive_witness:
  "length scenarioImage = 4 * 3 * channels \<and>
   distinctKeys scenarioImage 16 4 0 = 1 \<and>
   distinctKeys scenarioImage 16 4 1 = 2 \<and>
   distinctKeys scenarioImage 16 4 2 = 4 \<and>
   compactRows scenarioImage 4 3 1 16 =
     \<lparr> newData = [0, 0, 0, 255,    0, 0, 0, 255,    255, 255, 255, 255,  255, 255, 255, 255,
                   255, 0, 0, 255,  0, 255, 0, 255,  0, 0, 255, 255,      255, 255, 255, 255],
       newWidth = 4, newHeight = Some 2 \<rparr>"
proof -
  have k1: "distinctKeys scenarioImage 16 4 1 = 2"
    using scenario_keys_1 by simp
  have k2: "distinctKeys scenarioImage 16 4 2 = 4"
    using scenario_keys_2 by (simp add: numeral_2_eq_2)
  show ?thesis
    using scenario_rows_1_and_2_survive [OF scenario_length scenario_keys_0 k1 k2]
      scenario_length scenario_keys_0 k1 k2 scenario_rows_1_2
    by simp
qed

text \<open>
  Claim C2. When the buffer has \<open>width * height * 4\<close> bytes and the width is positive,
  the result has as many bytes as the number of content rows times \<open>width * 4\<close>, its
  height is the number of content rows, its width is the width of the input, and its
  bytes are the content rows of the input, one after the other from top to bottom. (The
  theorem needs neither a positive height nor a positive quantization factor.)
\<close>

theorem output_shape_and_order:
  assumes "length data = width * height * channels" and "0 < width"
  shows "length (newData (compactRows data width height m q)) =
           length (contentRows data width height m q) * width * channels \<and>
         newHeight (compactRows data width height m q) =
           Some (length (contentRows data width height m q)) \<and>
         newWidth (compactRows data width height m q) = width \<and>
         newData (compactRows data width height m q) =
           concat (map (inputRow data width) (contentRows data width height m q))"
proof (intro conjI)
  show "length (newData (compactRows data width height m q)) =
        length (contentRows data width height m q) * width * channels"
    by (rule length_newData)
  show "newHeight (compactRows data width height m q) =
        Some (length (contentRows data width height m q))"
    using assms(2) by (rule newHeight_eq)
  show "newWidth (compactRows data width height m q) = width"
    by (rule newWidth_eq)
  show "newData (compactRows data width height m q) =
        concat (map (inputRow data width) (contentRows data width height m q))"
    using assms(1) by (rule newData_wellformed)
qed

theorem output_shape_and_order_witness:
  "length scenarioImage = 4 * 3 * channels \<and> (0::nat) < 4 \<and>
   length (newData (compactRows scenarioImage 4 3 1 16)) = 2 * 4 * channels \<and>
   newHeight (compactRows scenarioImage 4 3 1 16) = Some 2 \<and>
   newWidth (compactRows scenarioImage 4 3 1 16) = 4 \<and>
   newData (compactRows scenarioImage 4 3 1 16) =
     inputRow scenarioImage 4 1 @ inputRow scenarioImage 4 2"
proof -
  have pos: "(0::nat) < 4" by simp
  note shape = output_shape_and_order [OF scenario_length pos, of 1 16,
      unfolded scenario_contentRows_1]
  have "length (newData (compactRows scenarioImage 4 3 1 16)) = 2 * 4 * channels"
    using shape [THEN conjunct1] by simp
  moreover have "newHeight (compactRows scenarioImage 4 3 1 16) = Some 2"
    using shape [THEN conjunct2, THEN conjunct1] by simp
  moreover have "newWidth (compactRows scenarioImage 4 3 1 16) = 4"
    using shape [THEN conjunct2, THEN conjunct2, THEN conjunct1] .
  moreover have "newData (compactRows scenarioImage 4 3 1 16) =
      inputRow scenarioImage 4 1 @ inputRow scenarioImage 4 2"
    using shape [THEN conjunct2, THEN conjunct2, THEN conjunct2] by simp
  ultimately show ?thesis
    using scenario_length pos by blast
qed

text \<open>
  Claim C3. The comparison with the threshold is strict. A row is content exactly when it
  has more than \<open>maxDifferentPixels\<close> distinct keys, the body of the loop pushes the row
  in that case and leaves \<open>nonBlankRows\<close> as it is otherwise; so a row with exactly
  \<open>maxDifferentPixels\<close> distinct keys is blank and nothing of it is pushed.
\<close>

theorem threshold_is_strict:
  "(rowIsContent data width m q y \<longleftrightarrow> m < distinctKeys data q width y) \<and>
   rowBody data width m q y nonBlankRows =
     (if m < distinctKeys data q width y then nonBlankRows @ rowSlots data width y
      else nonBlankRows) \<and>
   (distinctKeys data q width y = m \<longrightarrow>
      \<not> rowIsContent data width m q y \<and>
      rowBody data width m q y nonBlankRows = nonBlankRows)"
  by (simp add: rowBody_eq rowIsContent_iff)

theorem threshold_is_strict_witness:
  "distinctKeys scenarioImage 16 4 1 = 2 \<and>
   \<not> rowIsContent scenarioImage 4 2 16 1 \<and>
   rowBody scenarioImage 4 2 16 1 [] = [] \<and>
   contentRows scenarioImage 4 3 2 16 = [2]"
proof -
  have k1: "distinctKeys scenarioImage 16 4 1 = 2"
    using scenario_keys_1 by simp
  have rows: "contentRows scenarioImage 4 3 2 16 = [2]"
    by code_simp
  show ?thesis
    using threshold_is_strict [of scenarioImage 4 2 16 1 "[]"] k1 rows by simp
qed

text \<open>
  Claim C4. For the same buffer, width, height and quantization factor, and thresholds
  \<open>t1 \<le> t2\<close>, the height of the result for \<open>t2\<close> is at most the height of the
  result for \<open>t1\<close>. (For a width of 0 both heights are \<open>NaN\<close>, which compares with
  nothing; the width of a picture is positive.)
\<close>

theorem height_monotone_in_threshold:
  assumes "t1 \<le> t2" and "0 < width"
  shows "\<exists>h1 h2. newHeight (compactRows data width height t1 q) = Some h1 \<and>
                 newHeight (compactRows data width height t2 q) = Some h2 \<and>
                 h2 \<le> h1"
  using assms by (simp add: newHeight_eq length_contentRows_mono)

theorem height_monotone_in_threshold_witness:
  "(1::nat) \<le> 2 \<and> (0::nat) < 4 \<and>
   newHeight (compactRows scenarioImage 4 3 1 16) = Some 2 \<and>
   newHeight (compactRows scenarioImage 4 3 2 16) = Some 1"
proof -
  have le: "(1::nat) \<le> 2" by simp
  have pos: "(0::nat) < 4" by simp
  have a: "newHeight (compactRows scenarioImage 4 3 1 16) = Some 2" by code_simp
  have b: "newHeight (compactRows scenarioImage 4 3 2 16) = Some 1" by code_simp
  show ?thesis
    using height_monotone_in_threshold [OF le pos, of scenarioImage 3 16] a b by simp
qed

text \<open>
  Claim C5. When every row has more than \<open>maxDifferentPixels\<close> distinct keys, the
  result is the input: the same bytes and the same height.
\<close>

theorem all_content_is_identity:
  assumes "length data = width * height * channels" and "0 < width"
    and "\<forall>y<height. m < distinctKeys data q width y"
  shows "compactRows data width height m q =
         \<lparr> newData = data, newWidth = width, newHeight = Some height \<rparr>"
proof -
  have rows: "contentRows data width height m q = [0..<height]"
    using assms(3) by (simp add: contentRows_def)
  have "newData (compactRows data width height m q) = data"
    using newData_wellformed [OF assms(1), of m q] assms(1)
    by (simp add: rows concat_inputRows mult.commute)
  moreover have "newHeight (compactRows data width height m q) = Some height"
    using newHeight_eq [OF assms(2), of data height m q] by (simp add: rows)
  moreover have "newWidth (compactRows data width height m q) = width"
    by (rule newWidth_eq)
  ultimately show ?thesis
    by (cases "compactRows data width height m q") simp
qed

theorem all_content_is_identity_witness:
  "length scenarioImage = 4 * 3 * channels \<and> (0::nat) < 4 \<and>
   0 < distinctKeys scenarioImage 16 4 0 \<and>
   0 < distinctKeys scenarioImage 16 4 1 \<and>
   0 < distinctKeys scenarioImage 16 4 2 \<and>
   compactRows scenarioImage 4 3 0 16 =
     \<lparr> newData = scenarioImage, newWidth = 4, newHeight = Some 3 \<rparr>"
proof -
  have pos: "(0::nat) < 4" by simp
  have rows: "\<forall>y<3. 0 < distinctKeys scenarioImage 16 4 y"
    by (simp add: all_less_3 scenario_keys_0 scenario_keys_1 scenario_keys_2)
  show ?thesis
    using all_content_is_identity [OF scenario_length pos rows] scenario_length rows
    by (simp add: all_less_3 numeral_2_eq_2)
qed

text \<open>
  Claim C6 says that a picture whose rows all have at most \<open>maxDifferentPixels\<close>
  distinct keys gives an empty buffer and the height 0, as a normal return and not a
  failure. The first half holds: for a positive width the loop keeps no row, the buffer is
  empty and the new height is 0. The second half does not: \<open>createImageData\<close> is then
  called with the height 0 and throws \<open>IndexSizeError\<close>, and \<open>processImage\<close> fails
  with it instead of returning.
\<close>

theorem all_blank_is_rejected:
  assumes "0 < width" and "\<forall>y<height. distinctKeys data q width y \<le> m"
  shows "compactRows data width height m q =
           \<lparr> newData = [], newWidth = width, newHeight = Some 0 \<rparr> \<and>
         processImage data width height m q = Inl IndexSizeError"
proof -
  have "filter (\<lambda>y. m < distinctKeys data q width y) [0..<height] = []"
    using assms(2) by (auto simp: filter_empty_conv)
  then have rows: "contentRows data width height m q = []"
    by (simp add: contentRows_def)
  have "compactRows data width height m q =
        \<lparr> newData = [], newWidth = width, newHeight = Some 0 \<rparr>"
    using assms(1) by (simp add: compactRows_eq rows jsDivide_def channels_def)
  moreover have "processImage data width height m q = Inl IndexSizeError"
    using assms(1) rows by (rule processImage_blank)
  ultimately show ?thesis
    by simp
qed

theorem all_blank_is_rejected_witness:
  "(0::nat) < 4 \<and>
   distinctKeys scenarioImage 16 4 0 \<le> 4 \<and>
   distinctKeys scenarioImage 16 4 1 \<le> 4 \<and>
   distinctKeys scenarioImage 16 4 2 \<le> 4 \<and>
   compactRows scenarioImage 4 3 4 16 =
     \<lparr> newData = [], newWidth = 4, newHeight = Some 0 \<rparr> \<and>
   processImage scenarioImage 4 3 4 16 = Inl IndexSizeError"
proof -
  have pos: "(0::nat) < 4" by simp
  have rows: "\<forall>y<3. distinctKeys scenarioImage 16 4 y \<le> 4"
    by (simp add: all_less_3 scenario_keys_0 scenario_keys_1 scenario_keys_2)
  show ?thesis
    using all_blank_is_rejected [OF pos rows] rows
    by (simp add: all_less_3 numeral_2_eq_2)
qed

text \<open>
  Claim C7. The scan with the early exit and the reference scan of the whole row classify
  every row alike, and the two versions of the function return the same pixels, width
  and height, on every input.
\<close>

theorem early_exit_refines_full_scan:
  "rowIsContent data width m q y = rowIsContentFull data width m q y \<and>
   compactRows data width height m q = compactRowsFull data width height m q"
  by (simp add: rowIsContent_iff rowIsContentFull_iff compactRows_def compactRowsFull_def
      rowsLoopFull_eq)

text \<open>
  Claim C8. Take two buffers of \<open>width * height * 4\<close> bytes that have the same bytes
  at every index that is not an alpha byte (index 3 modulo 4). Every row is content for
  one exactly when it is content for the other, so both have the same content rows; and
  the result for each is made of its own content rows byte for byte, all four channels
  of each pixel, the alpha bytes as they are in the input.
\<close>

theorem alpha_is_not_looked_at:
  assumes "length d1 = width * height * channels"
    and "length d2 = width * height * channels"
    and "\<forall>i<length d1. i mod channels \<noteq> channels - 1 \<longrightarrow> d1 ! i = d2 ! i"
  shows "(\<forall>y. rowIsContent d1 width m q y = rowIsContent d2 width m q y) \<and>
         contentRows d1 width height m q = contentRows d2 width height m q \<and>
         newData (compactRows d1 width height m q) =
           concat (map (inputRow d1 width) (contentRows d1 width height m q)) \<and>
         newData (compactRows d2 width height m q) =
           concat (map (inputRow d2 width) (contentRows d1 width height m q))"
proof -
  have len: "length d1 = length d2"
    using assms(1,2) by simp
  have keys: "distinctKeys d1 q width y = distinctKeys d2 q width y" for y
    using len assms(3) by (rule distinctKeys_alpha)
  have rows: "contentRows d1 width height m q = contentRows d2 width height m q"
    by (simp add: contentRows_def keys)
  have "\<forall>y. rowIsContent d1 width m q y = rowIsContent d2 width m q y"
    by (simp add: rowIsContent_iff keys)
  moreover have "newData (compactRows d1 width height m q) =
      concat (map (inputRow d1 width) (contentRows d1 width height m q))"
    using assms(1) by (rule newData_wellformed)
  moreover have "newData (compactRows d2 width height m q) =
      concat (map (inputRow d2 width) (contentRows d1 width height m q))"
    unfolding rows using assms(2) by (rule newData_wellformed)
  ultimately show ?thesis
    using rows by blast
qed

theorem alpha_is_not_looked_at_witness:
  "length scenarioImage = 4 * 3 * channels \<and>
   length translucentImage = 4 * 3 * channels \<and>
   list_all (\<lambda>i. i mod channels \<noteq> channels - 1 \<longrightarrow> scenarioImage ! i = translucentImage ! i)
     [0..<length scenarioImage] \<and>
   scenarioImage \<noteq> translucentImage \<and>
   contentRows scenarioImage 4 3 1 16 = [1, 2] \<and>
   contentRows translucentImage 4 3 1 16 = [1, 2] \<and>
   newData (compactRows translucentImage 4 3 1 16) =
     [0, 0, 0, 128,    0, 0, 0, 64,     255, 255, 255, 32,   255, 255, 255, 16,
      255, 0, 0, 1,    0, 255, 0, 2,    0, 0, 255, 3,        255, 255, 255, 4]"
proof -
  have len2: "length translucentImage = 4 * 3 * channels"
    by code_simp
  have agree: "\<forall>i<length scenarioImage.
      i mod channels \<noteq> channels - 1 \<longrightarrow> scenarioImage ! i = translucentImage ! i"
    unfolding all_less_list_all by (rule translucent_colours)
  note th = alpha_is_not_looked_at [OF scenario_length len2 agree, of 1 16]
  have differ: "scenarioImage \<noteq> translucentImage"
    by code_simp
  have rows2: "contentRows translucentImage 4 3 1 16 = [1, 2]"
    using th [THEN conjunct2, THEN conjunct1] scenario_contentRows_1 by simp
  have bytes: "inputRow translucentImage 4 1 @ inputRow translucentImage 4 2 =
     [0, 0, 0, 128,    0, 0, 0, 64,     255, 255, 255, 32,   255, 255, 255, 16,
      255, 0, 0, 1,    0, 255, 0, 2,    0, 0, 255, 3,        255, 255, 255, 4]"
    by code_simp
  have "newData (compactRows translucentImage 4 3 1 16) =
     inputRow translucentImage 4 1 @ inputRow translucentImage 4 2"
    using th [THEN conjunct2, THEN conjunct2, THEN conjunct2]
    unfolding scenario_contentRows_1 by simp
  then show ?thesis
    using scenario_length len2 translucent_colours differ scenario_contentRows_1 rows2 bytes
    by simp
qed

text \<open>
  Claim C10. The key of a pixel is built with a shift of 4 bits for each channel, whatever
  the quantization factor. With a factor of at least 16 every quantized channel is below
  16, and on pixels whose quantized channels are all below 16 two keys are equal exactly
  when the quantized triples are equal. With the factor 1 the pixels (0, 16, 0) and
  (1, 0, 0) have different triples and the same key, and the row made of these two pixels
  has 2 distinct quantized colours and is counted as having 1.
\<close>

theorem key_shift_is_fixed:
  "pixelValue d q p =
     push_bit 4 (push_bit 4 (quantize (dataAt d p) q) OR quantize (dataAt d (p + 1)) q)
       OR quantize (dataAt d (p + 2)) q \<and>
   (16 \<le> q \<longrightarrow> (\<forall>v\<in>set (quantizedTriple d q p). v < 16)) \<and>
   ((\<forall>v\<in>set (quantizedTriple d q p). v < 16) \<and>
    (\<forall>v\<in>set (quantizedTriple d' q' p'). v < 16) \<longrightarrow>
      (pixelValue d q p = pixelValue d' q' p') =
      (quantizedTriple d q p = quantizedTriple d' q' p')) \<and>
   quantizedTriple collisionRow 1 0 \<noteq> quantizedTriple collisionRow 1 4 \<and>
   pixelValue collisionRow 1 0 = pixelValue collisionRow 1 4 \<and>
   distinctKeys collisionRow 1 2 0 = 1 \<and>
   distinctTriples collisionRow 1 2 0 = 2"
proof (intro conjI impI)
  show "pixelValue d q p =
     push_bit 4 (push_bit 4 (quantize (dataAt d p) q) OR quantize (dataAt d (p + 1)) q)
       OR quantize (dataAt d (p + 2)) q"
    by (simp add: pixelValue_unfold numeral_2_eq_2)
  show "\<forall>v\<in>set (quantizedTriple d q p). v < 16" if "16 \<le> q"
    using that by (rule triple_small)
  show "(pixelValue d q p = pixelValue d' q' p') =
      (quantizedTriple d q p = quantizedTriple d' q' p')"
    if "(\<forall>v\<in>set (quantizedTriple d q p). v < 16) \<and>
        (\<forall>v\<in>set (quantizedTriple d' q' p'). v < 16)"
    using that by (intro pixelValue_inj) simp_all
  show "quantizedTriple collisionRow 1 0 \<noteq> quantizedTriple collisionRow 1 4"
    by code_simp
  show "pixelValue collisionRow 1 0 = pixelValue collisionRow 1 4"
    by code_simp
  show "distinctKeys collisionRow 1 2 0 = 1"
    by code_simp
  show "distinctTriples collisionRow 1 2 0 = 2"
    by code_simp
qed

theorem key_shift_is_fixed_witness:
  "(16::nat) \<le> 16 \<and>
   quantizedTriple scenarioImage 16 0 = [15, 0, 0] \<and>
   quantizedTriple scenarioImage 16 16 = [0, 0, 0] \<and>
   pixelValue scenarioImage 16 0 \<noteq> pixelValue scenarioImage 16 16"
proof -
  have q: "(16::nat) \<le> 16" by simp
  have t0: "quantizedTriple scenarioImage 16 0 = [15, 0, 0]" by code_simp
  have t1: "quantizedTriple scenarioImage 16 16 = [0, 0, 0]" by code_simp
  note th = key_shift_is_fixed [of scenarioImage 16 0 scenarioImage 16 16]
  note small = th [THEN conjunct2, THEN conjunct1, rule_format, OF q]
  have small': "\<forall>v\<in>set (quantizedTriple scenarioImage 16 16). v < 16"
    by (simp add: t1)
  have "(pixelValue scenarioImage 16 0 = pixelValue scenarioImage 16 16) =
        (quantizedTriple scenarioImage 16 0 = quantizedTriple scenarioImage 16 16)"
    using th [THEN conjunct2, THEN conjunct2, THEN conjunct1] small small' by blast
  then have "pixelValue scenarioImage 16 0 \<noteq> pixelValue scenarioImage 16 16"
    by (simp add: t0 t1)
  then show ?thesis
    using q t0 t1 by simp
qed

end
